theory Spec2Isabelle
  imports Complex_Main "HOL-Library.Sublist"
begin

section \<open>Strings: the operations of Python's \<open>str\<close> that the suite uses\<close>

text \<open>
  \<open>sep.join(parts)\<close>: the parts with \<open>sep\<close> between neighbours; the empty list gives
  the empty string.
\<close>

fun join :: "string \<Rightarrow> string list \<Rightarrow> string" where
  "join sep [] = []"
| "join sep [x] = x"
| "join sep (x # y # ys) = x @ sep @ join sep (y # ys)"

text \<open>
  \<open>s.split(c)\<close> for a separator of one character: the maximal runs of \<open>s\<close> without
  \<open>c\<close>, so \<open>"".split(".") = [""]\<close>, \<open>"a.b".split(".") = ["a", "b"]\<close> and
  \<open>"a..b".split(".") = ["a", "", "b"]\<close>.
\<close>

fun str_split :: "char \<Rightarrow> string \<Rightarrow> string list" where
  "str_split c [] = [[]]"
| "str_split c (x # xs) =
     (if x = c then [] # str_split c xs
      else (case str_split c xs of
              [] \<Rightarrow> [[x]]
            | p # ps \<Rightarrow> (x # p) # ps))"

section \<open>Parsed JSON documents\<close>

text \<open>
  What \<open>json.loads\<close> returns: \<open>None\<close>, a bool, an int, a float, a str, a list or a
  dict with string keys. A dict is kept as an association list read with \<open>map_of\<close>.
\<close>

datatype json =
    JNull
  | JBool bool
  | JInt int
  | JFloat rat
  | JStr string
  | JArr "json list"
  | JObj "(string \<times> json) list"

subsection \<open>\<open>APITestSuite._has_json_path\<close>\<close>

text \<open>
  The loop \<open>for part in parts\<close> with its early \<open>return False\<close>: \<open>current\<close> is the
  value reached so far.
\<close>

fun walk_parts :: "json \<Rightarrow> string list \<Rightarrow> bool" where
  "walk_parts current [] = True"
| "walk_parts current (part # parts) =
     (case current of
        JObj d \<Rightarrow>
          (case map_of d part of
             None \<Rightarrow> False
           | Some v \<Rightarrow> walk_parts v parts)
      | _ \<Rightarrow> False)"

definition has_json_path :: "json \<Rightarrow> string \<Rightarrow> bool" where
  "has_json_path payload path = walk_parts payload (str_split CHR ''.'' path)"

subsection \<open>The walk as the specification words it\<close>

text \<open>
  \<open>reaches d ks v\<close>: starting at \<open>d\<close>, every key of \<open>ks\<close> in turn is a key of the
  mapping reached so far, and \<open>v\<close> is the value under the last one.
\<close>

inductive reaches :: "json \<Rightarrow> string list \<Rightarrow> json \<Rightarrow> bool" where
  reaches_Nil: "reaches d [] d"
| reaches_Cons: "map_of m k = Some v \<Longrightarrow> reaches v ks w \<Longrightarrow> reaches (JObj m) (k # ks) w"

code_pred reaches .


section \<open>Numbers as text\<close>

text \<open>
  \<open>str(n)\<close> and \<open>f"{n}"\<close> for a Python int: decimal digits, with a minus sign for a
  negative number.
\<close>

definition digit_char :: "nat \<Rightarrow> char" where
  "digit_char n = ''0123456789'' ! (n mod 10)"

fun str_nat :: "nat \<Rightarrow> string" where
  "str_nat n = (if n < 10 then [digit_char n] else str_nat (n div 10) @ [digit_char n])"

declare str_nat.simps [simp del]

definition str_int :: "int \<Rightarrow> string" where
  "str_int i = (if i < 0 then CHR ''-'' # str_nat (nat (- i)) else str_nat (nat i))"

text \<open>
  A Python float is modelled by the rational number that it denotes; NaN, the
  infinities and the negative zero are outside the model. Comparison of floats is
  comparison of these rationals. \<open>f"{x:.2f}"\<close> rounds the exact value to hundredths,
  ties to the even neighbour, and keeps the sign of a negative number that rounds to
  zero (\<open>-0.00\<close>).
\<close>

definition round_half_even :: "rat \<Rightarrow> int" where
  "round_half_even q =
     (let n = \<lfloor>q\<rfloor>; f = q - of_int n
      in if f < 1 / 2 then n
         else if 1 / 2 < f then n + 1
         else if even n then n else n + 1)"

definition format_2f :: "rat \<Rightarrow> string" where
  "format_2f x =
     (let h = nat (round_half_even (\<bar>x\<bar> * 100))
      in (if x < 0 then ''-'' else []) @ str_nat (h div 100) @ ''.''
           @ [digit_char (h div 10), digit_char h])"

text \<open>\<open>f"{v}"\<close> for an \<open>Optional[int]\<close>: \<open>None\<close> prints as the word \<open>None\<close>.\<close>

definition str_opt_int :: "int option \<Rightarrow> string" where
  "str_opt_int v = (case v of None \<Rightarrow> ''None'' | Some i \<Rightarrow> str_int i)"

text \<open>\<open>s.ljust(w)\<close> (the format \<open><w\<close>) and \<open>s.center(w)\<close>, padding with spaces.\<close>

definition ljust :: "nat \<Rightarrow> string \<Rightarrow> string" where
  "ljust w s = s @ replicate (w - length s) CHR '' ''"

definition center :: "nat \<Rightarrow> string \<Rightarrow> string" where
  "center w s =
     (let marg = w - length s;
          left = marg div 2 + (if odd marg \<and> odd w then 1 else 0)
      in replicate left CHR '' '' @ s @ replicate (marg - left) CHR '' '')"

definition newline :: char where
  "newline = CHR 0x0A"

section \<open>Floating point arithmetic\<close>

text \<open>
  The result of an arithmetic operation on floats is the exact result rounded to the
  nearest number with a mantissa of 53 binary digits, ties to the even mantissa (IEEE
  754 binary64, the float of Python). Overflow and the subnormal numbers are outside the
  model: the elapsed time of a request is far from both.

  \<open>bit_length n\<close> is the number of binary digits of \<open>n\<close> (Python's \<open>int.bit_length\<close>);
  \<open>pow2 e\<close> is \<open>2\<close> to the power \<open>e\<close>; \<open>floor_log2 q\<close> is the exponent of the greatest
  power of two that does not exceed a positive \<open>q\<close>.
\<close>

fun bit_length :: "nat \<Rightarrow> nat" where
  "bit_length n = (if n = 0 then 0 else Suc (bit_length (n div 2)))"

declare bit_length.simps [simp del]

definition pow2 :: "int \<Rightarrow> rat" where
  "pow2 e = (if 0 \<le> e then 2 ^ nat e else 1 / 2 ^ nat (- e))"

definition floor_log2 :: "rat \<Rightarrow> int" where
  "floor_log2 q =
     (if 1 \<le> q then int (bit_length (nat \<lfloor>q\<rfloor>)) - 1
      else - int (bit_length (nat (\<lceil>1 / q\<rceil> - 1))))"

definition round_double :: "rat \<Rightarrow> rat" where
  "round_double q =
     (if q = 0 then 0
      else (let e = floor_log2 \<bar>q\<bar> - 52;
                m = round_half_even (\<bar>q\<bar> / pow2 e)
            in sgn q * of_int m * pow2 e))"

text \<open>The product \<open>x * y\<close> of two floats.\<close>

definition float_mul :: "rat \<Rightarrow> rat \<Rightarrow> rat" where
  "float_mul x y = round_double (x * y)"

text \<open>
  A \<open>datetime.timedelta\<close> is a whole number of microseconds, and
  \<open>timedelta.total_seconds()\<close> is the true division of this number by \<open>10**6\<close>: the
  float nearest to the quotient.
\<close>

definition total_seconds :: "int \<Rightarrow> rat" where
  "total_seconds us = round_double (of_int us / 1000000)"

section \<open>Exceptions, responses and configuration\<close>

text \<open>
  The exceptions that reach the suite, all subclasses of \<open>Exception\<close>:
  \<open>json.JSONDecodeError\<close> from \<open>response.json()\<close>, \<open>APIClientError\<close> from the HTTP
  client, and any other one. Each carries the text that \<open>str(exc)\<close> gives. What is
  not an \<open>Exception\<close> (\<open>KeyboardInterrupt\<close>, \<open>SystemExit\<close>) is outside the model.
\<close>

datatype exn =
    JSONDecodeError string
  | APIClientError string
  | OtherException string

fun str_exn :: "exn \<Rightarrow> string" where
  "str_exn (JSONDecodeError msg) = msg"
| "str_exn (APIClientError msg) = msg"
| "str_exn (OtherException msg) = msg"

text \<open>
  What the suite reads of a \<open>requests.Response\<close>: \<open>status_code\<close>, \<open>elapsed\<close> (a
  \<open>timedelta\<close>, kept as its number of microseconds), and the outcome of \<open>json()\<close>, a
  parsed document or a raised exception.
\<close>

record Response =
  response_status_code :: int
  elapsed :: int
  response_json :: "exn + json"

text \<open>\<open>Config\<close>, without the two directories.\<close>

record Config =
  base_url :: string
  timeout :: rat
  max_response_time_ms :: rat

definition default_config :: Config where
  "default_config =
     \<lparr>base_url = ''https://reqres.in/api'', timeout = 10, max_response_time_ms = 800\<rparr>"

text \<open>\<open>TestResult\<close>: the two optional fields default to \<open>None\<close>.\<close>

record TestResult =
  name :: string
  success :: bool
  status_code :: "int option"
  response_time_ms :: "rat option"
  details :: string

text \<open>
  \<open>HttpClient\<close> as the suite sees it: \<open>get\<close> and \<open>post\<close> either return a response or
  raise. The network is the state \<open>'w\<close> that a request reads and changes, so that two
  requests for one path may differ.
\<close>

record 'w HttpClient =
  get :: "string \<Rightarrow> 'w \<Rightarrow> (exn + Response) \<times> 'w"
  post :: "string \<Rightarrow> json \<Rightarrow> 'w \<Rightarrow> (exn + Response) \<times> 'w"

text \<open>
  \<open>APITestSuite\<close>: its configuration, its client and the accumulated results, with the
  state of the network behind the client.
\<close>

record 'w APITestSuite =
  config :: Config
  client :: "'w HttpClient"
  results :: "TestResult list"
  net :: 'w

definition init_suite :: "Config \<Rightarrow> 'w HttpClient \<Rightarrow> 'w \<Rightarrow> 'w APITestSuite" where
  "init_suite cfg cl w = \<lparr>config = cfg, client = cl, results = [], net = w\<rparr>"

section \<open>\<open>APITestSuite._validate_response\<close>\<close>

text \<open>
  The two local variables \<open>success\<close> and \<open>details_list\<close> are the state that each
  check reads and updates.
\<close>

type_synonym checks = "bool \<times> string list"

definition status_message :: "int \<Rightarrow> int \<Rightarrow> string" where
  "status_message expected_status code =
     ''Expected status '' @ str_int expected_status @ '', got '' @ str_int code @ ''.''"

definition latency_message :: "rat \<Rightarrow> rat \<Rightarrow> string" where
  "latency_message elapsed_ms limit =
     ''Response time '' @ format_2f elapsed_ms @ '' ms exceeded limit ''
       @ format_2f limit @ '' ms.''"

definition invalid_json_message :: string where
  "invalid_json_message = ''Response is not valid JSON.''"

definition missing_path_message :: "string \<Rightarrow> string" where
  "missing_path_message path = ''Missing JSON path: '' @ path"

definition all_checks_passed :: string where
  "all_checks_passed = ''All checks passed.''"

definition check_status :: "int \<Rightarrow> int \<Rightarrow> checks \<Rightarrow> checks" where
  "check_status code expected_status st =
     (if code \<noteq> expected_status
      then (False, snd st @ [status_message expected_status code])
      else st)"

definition check_latency :: "rat \<Rightarrow> rat \<Rightarrow> checks \<Rightarrow> checks" where
  "check_latency elapsed_ms limit st =
     (if elapsed_ms > limit
      then (False, snd st @ [latency_message elapsed_ms limit])
      else st)"

text \<open>The loop \<open>for path in required_json_paths\<close>.\<close>

fun check_paths :: "json \<Rightarrow> string list \<Rightarrow> checks \<Rightarrow> checks" where
  "check_paths payload [] st = st"
| "check_paths payload (path # paths) st =
     check_paths payload paths
       (if \<not> has_json_path payload path
        then (False, snd st @ [missing_path_message path])
        else st)"

text \<open>
  \<open>if required_json_paths:\<close> is false for \<open>None\<close> and for the empty list. Of the
  exceptions of \<open>response.json()\<close> only \<open>json.JSONDecodeError\<close> is caught here; any
  other one leaves the function.
\<close>

definition check_json :: "Response \<Rightarrow> string list option \<Rightarrow> checks \<Rightarrow> exn + checks" where
  "check_json response required_json_paths st =
     (case required_json_paths of
        None \<Rightarrow> Inr st
      | Some [] \<Rightarrow> Inr st
      | Some (p # ps) \<Rightarrow>
          (case response_json response of
             Inr payload \<Rightarrow> Inr (check_paths payload (p # ps) st)
           | Inl (JSONDecodeError msg) \<Rightarrow> Inr (False, snd st @ [invalid_json_message])
           | Inl exc \<Rightarrow> Inl exc))"

text \<open>
  \<open>elapsed_ms = response.elapsed.total_seconds() * 1000\<close>: a product of floats, so
  it is rounded.
\<close>

definition response_elapsed_ms :: "Response \<Rightarrow> rat" where
  "response_elapsed_ms response = float_mul (total_seconds (elapsed response)) 1000"

definition run_checks ::
  "'w APITestSuite \<Rightarrow> Response \<Rightarrow> int \<Rightarrow> string list option \<Rightarrow> exn + checks" where
  "run_checks self response expected_status required_json_paths =
     (let code = response_status_code response;
          elapsed_ms = response_elapsed_ms response
      in check_json response required_json_paths
           (check_latency elapsed_ms (max_response_time_ms (config self))
              (check_status code expected_status (True, []))))"

definition validate_response ::
  "'w APITestSuite \<Rightarrow> string \<Rightarrow> Response \<Rightarrow> int \<Rightarrow> string list option \<Rightarrow> exn + TestResult" where
  "validate_response self nm response expected_status required_json_paths =
     (case run_checks self response expected_status required_json_paths of
        Inl exc \<Rightarrow> Inl exc
      | Inr (ok, details_list) \<Rightarrow>
          Inr \<lparr>name = nm,
               success = ok,
               status_code = Some (response_status_code response),
               response_time_ms = Some (response_elapsed_ms response),
               details = join '' ''
                 (if details_list = [] then [all_checks_passed] else details_list)\<rparr>)"

section \<open>\<open>APITestSuite.run_get_test\<close> and \<open>run_post_test\<close>\<close>

text \<open>
  The result built in \<open>except Exception as exc\<close>, where both optional fields keep their
  default.
\<close>

definition exception_result :: "string \<Rightarrow> exn \<Rightarrow> TestResult" where
  "exception_result nm exc =
     \<lparr>name = nm, success = False, status_code = None, response_time_ms = None,
      details = ''Exception while executing test: '' @ str_exn exc\<rparr>"

text \<open>
  The \<open>try\<close> block holds the request and the validation, so an exception of either
  becomes the result; then the result is appended and returned. The lines written to
  the log are not part of the state.
\<close>

definition run_get_test ::
  "'w APITestSuite \<Rightarrow> string \<Rightarrow> string \<Rightarrow> int \<Rightarrow> string list option
     \<Rightarrow> TestResult \<times> 'w APITestSuite" where
  "run_get_test self nm path expected_status required_json_paths =
     (let (outcome, w) = get (client self) path (net self);
          result =
            (case outcome of
               Inl exc \<Rightarrow> exception_result nm exc
             | Inr response \<Rightarrow>
                 (case validate_response self nm response expected_status
                         required_json_paths of
                    Inl exc \<Rightarrow> exception_result nm exc
                  | Inr r \<Rightarrow> r))
      in (result, self\<lparr>results := results self @ [result], net := w\<rparr>))"

definition run_post_test ::
  "'w APITestSuite \<Rightarrow> string \<Rightarrow> string \<Rightarrow> json \<Rightarrow> int \<Rightarrow> string list option
     \<Rightarrow> TestResult \<times> 'w APITestSuite" where
  "run_post_test self nm path payload expected_status required_json_paths =
     (let (outcome, w) = post (client self) path payload (net self);
          result =
            (case outcome of
               Inl exc \<Rightarrow> exception_result nm exc
             | Inr response \<Rightarrow>
                 (case validate_response self nm response expected_status
                         required_json_paths of
                    Inl exc \<Rightarrow> exception_result nm exc
                  | Inr r \<Rightarrow> r))
      in (result, self\<lparr>results := results self @ [result], net := w\<rparr>))"

section \<open>Rendering: \<open>_log_result\<close>, \<open>write_report\<close> and \<open>print_summary\<close>\<close>

text \<open>The message of \<open>_log_result\<close>, which tests the latency with \<open>is not None\<close>.\<close>

definition log_result :: "TestResult \<Rightarrow> string" where
  "log_result result =
     ''['' @ (if success result then ''PASS'' else ''FAIL'') @ ''] '' @ name result
       @ '' (status='' @ str_opt_int (status_code result) @ '', time=''
       @ (case response_time_ms result of None \<Rightarrow> ''N/A'' | Some t \<Rightarrow> format_2f t)
       @ '' ms) - '' @ details result"

text \<open>
  \<open>write_report\<close> and \<open>print_summary\<close> test the latency by its truth value
  (\<open>if res.response_time_ms\<close>), which is false for \<open>None\<close> and for zero.
\<close>

definition response_time_str :: "rat option \<Rightarrow> string" where
  "response_time_str t =
     (case t of
        None \<Rightarrow> ''N/A''
      | Some v \<Rightarrow> if v \<noteq> 0 then format_2f v else ''N/A'')"

definition report_line :: "TestResult \<Rightarrow> string" where
  "report_line res =
     (if success res then ''PASS'' else ''FAIL'') @ '' | '' @ name res @ '' | ''
       @ ''status='' @ str_opt_int (status_code res) @ '' | ''
       @ ''time='' @ response_time_str (response_time_ms res) @ '' ms | ''
       @ details res"

definition report_lines :: "'w APITestSuite \<Rightarrow> string list" where
  "report_lines self = map report_line (results self)"

text \<open>
  \<open>path.write_text("\\n".join(lines))\<close>: the file system is a map from paths to file
  contents, and the file at \<open>path\<close> is replaced.
\<close>

definition write_report ::
  "'w APITestSuite \<Rightarrow> string \<Rightarrow> (string \<rightharpoonup> string) \<Rightarrow> (string \<rightharpoonup> string)" where
  "write_report self path fs = fs(path \<mapsto> join [newline] (report_lines self))"

definition summary_line :: "TestResult \<Rightarrow> string" where
  "summary_line res =
     ljust 5 (if success res then ''PASS'' else ''FAIL'') @ '' | ''
       @ ljust 40 (name res) @ '' ''
       @ ''| status='' @ str_opt_int (status_code res) @ '' ''
       @ ''| time='' @ response_time_str (response_time_ms res) @ '' ms''"

text \<open>\<open>print_summary\<close>: the argument of each \<open>print\<close>, in order.\<close>

definition print_summary :: "TestResult list \<Rightarrow> string list" where
  "print_summary rs =
     (let total = length rs;
          passed = length (filter success rs);
          failed = total - passed
      in [newline # replicate 60 CHR ''='',
          center 60 ''API TEST SUMMARY'',
          replicate 60 CHR ''='']
         @ map summary_line rs
         @ [replicate 60 CHR ''-'',
            ''Total: '' @ str_nat total @ '' | Passed: '' @ str_nat passed
              @ '' | Failed: '' @ str_nat failed,
            replicate 60 CHR ''='' @ [newline]])"

text \<open>
  The lines of a text file: the runs between newline characters, and no line at all in
  an empty file.
\<close>

definition text_lines :: "string \<Rightarrow> string list" where
  "text_lines text = (if text = [] then [] else str_split newline text)"

section \<open>Runs\<close>

text \<open>
  A caller such as \<open>run_all_tests\<close> invokes the two operations one after the other on
  one suite and collects what they return.
\<close>

datatype test_call =
    GetTest string string int "string list option"
  | PostTest string string json int "string list option"

fun run_call :: "test_call \<Rightarrow> 'w APITestSuite \<Rightarrow> TestResult \<times> 'w APITestSuite" where
  "run_call (GetTest nm path expected_status paths) self =
     run_get_test self nm path expected_status paths"
| "run_call (PostTest nm path payload expected_status paths) self =
     run_post_test self nm path payload expected_status paths"

fun run_calls :: "test_call list \<Rightarrow> 'w APITestSuite \<Rightarrow> TestResult list \<times> 'w APITestSuite" where
  "run_calls [] self = ([], self)"
| "run_calls (c # cs) self =
     (let (r, self1) = run_call c self;
          (rs, self2) = run_calls cs self1
      in (r # rs, self2))"

text \<open>\<open>run_all_tests\<close> of \<open>test_cases.py\<close>: two GET and two POST tests.\<close>

definition run_all_tests :: "'w APITestSuite \<Rightarrow> TestResult list \<times> 'w APITestSuite" where
  "run_all_tests suite =
     (let (r1, s1) = run_get_test suite ''GET single user (id=2)'' ''/users/2'' 200
            (Some [''data.id'', ''data.email'', ''data.first_name'', ''data.last_name'']);
          (r2, s2) = run_get_test s1 ''GET users list (page=2)'' ''/users?page=2'' 200
            (Some [''page'', ''data'']);
          (r3, s3) = run_post_test s2 ''POST create user'' ''/users''
            (JObj [(''name'', JStr ''Harsh Bot''), (''job'', JStr ''automation-tester'')])
            201 (Some [''name'', ''job'', ''id'', ''createdAt'']);
          (r4, s4) = run_post_test s3 ''POST login without password (negative test)''
            ''/login'' (JObj [(''email'', JStr ''peter@klaven'')])
            400 (Some [''error''])
      in ([r1, r2, r3, r4], s4))"

section \<open>The checks as the specification words them\<close>

text \<open>
  The failure messages that the specification lists for one response, check by check:
  the status mismatch, the latency overrun, and for the JSON structure check (which runs
  only for a non-empty list of required paths) either the parse failure or one entry for
  each missing path, in the order of the paths.
\<close>

definition status_failures :: "int \<Rightarrow> int \<Rightarrow> string list" where
  "status_failures expected_status code =
     (if code = expected_status then [] else [status_message expected_status code])"

definition latency_failures :: "rat \<Rightarrow> rat \<Rightarrow> string list" where
  "latency_failures elapsed_ms limit =
     (if elapsed_ms \<le> limit then [] else [latency_message elapsed_ms limit])"

definition json_failures :: "exn + json \<Rightarrow> string list option \<Rightarrow> string list" where
  "json_failures body required_json_paths =
     (case required_json_paths of
        None \<Rightarrow> []
      | Some paths \<Rightarrow>
          if paths = [] then []
          else (case body of
                  Inl exc \<Rightarrow> [invalid_json_message]
                | Inr payload \<Rightarrow>
                    map missing_path_message
                      (filter (\<lambda>p. \<not> has_json_path payload p) paths)))"

definition spec_failures ::
  "rat \<Rightarrow> Response \<Rightarrow> int \<Rightarrow> string list option \<Rightarrow> string list" where
  "spec_failures limit response expected_status required_json_paths =
     status_failures expected_status (response_status_code response)
       @ latency_failures (response_elapsed_ms response) limit
       @ json_failures (response_json response) required_json_paths"


text \<open>
  A text contains a failure message when one of the fixed openings of the five
  messages occurs in it.
\<close>

definition failure_markers :: "string list" where
  "failure_markers =
     [''Expected status '', ''Response time '', ''Response is not valid JSON.'',
      ''Missing JSON path: '', ''Exception while executing test: '']"

definition contains_failure_message :: "string \<Rightarrow> bool" where
  "contains_failure_message text \<longleftrightarrow> (\<exists>mk \<in> set failure_markers. sublist mk text)"

text \<open>The invariant that the specification states for a \<open>TestResult\<close>.\<close>

definition verdict_invariant :: "TestResult \<Rightarrow> bool" where
  "verdict_invariant r \<longleftrightarrow>
     (contains_failure_message (details r) \<longrightarrow> \<not> success r)
     \<and> (success r \<longleftrightarrow> details r = all_checks_passed)
     \<and> ((status_code r = None) = (response_time_ms r = None))"

section \<open>Example values\<close>

text \<open>
  A client whose every request fails with a given description, one that always delivers
  the same response, and a suite with the default configuration and no results yet.
\<close>

definition failing_client :: "string \<Rightarrow> unit HttpClient" where
  "failing_client msg =
     \<lparr>get = (\<lambda>path w. (Inl (APIClientError msg), w)),
      post = (\<lambda>path payload w. (Inl (APIClientError msg), w))\<rparr>"

definition refusing_client :: "unit HttpClient" where
  "refusing_client = failing_client ''Connection refused''"

definition serving_client :: "Response \<Rightarrow> unit HttpClient" where
  "serving_client response =
     \<lparr>get = (\<lambda>path w. (Inr response, w)),
      post = (\<lambda>path payload w. (Inr response, w))\<rparr>"

definition example_suite :: "unit APITestSuite" where
  "example_suite = init_suite default_config refusing_client ()"

definition example_response :: Response where
  "example_response =
     \<lparr>response_status_code = 404, elapsed = 950000,
      response_json = Inr (JObj [(''data'', JObj [(''id'', JInt 7)])])\<rparr>"

text \<open>
  A response that took no measurable time, and the result of validating it.
\<close>

definition instant_response :: Response where
  "instant_response =
     \<lparr>response_status_code = 200, elapsed = 0, response_json = Inr (JObj [])\<rparr>"

definition instant_verdict :: TestResult where
  "instant_verdict =
     \<lparr>name = ''t'', success = True, status_code = Some 200, response_time_ms = Some 0,
      details = ''All checks passed.''\<rparr>"

text \<open>
  A response of 0.800015 seconds with the wrong status, and one of exactly 0.8 seconds,
  the default limit.
\<close>

definition slow_response :: Response where
  "slow_response =
     \<lparr>response_status_code = 404, elapsed = 800015,
      response_json = Inr (JObj [(''data'', JObj [(''id'', JInt 7)])])\<rparr>"

definition limit_response :: Response where
  "limit_response =
     \<lparr>response_status_code = 200, elapsed = 800000,
      response_json = Inl (JSONDecodeError ''Expecting value'')\<rparr>"

text \<open>
  A suite with a limit of 2007 milliseconds, and a response of 2.007 seconds with the
  wrong status and an empty object as its body.
\<close>

definition boundary_suite :: "unit APITestSuite" where
  "boundary_suite =
     init_suite (default_config\<lparr>max_response_time_ms := 2007\<rparr>) refusing_client ()"

definition boundary_response :: Response where
  "boundary_response =
     \<lparr>response_status_code = 404, elapsed = 2007000, response_json = Inr (JObj [])\<rparr>"

text \<open>
  The suite after one GET test whose request failed with a description of two lines.
\<close>

definition two_line_failure_suite :: "unit APITestSuite" where
  "two_line_failure_suite =
     snd (run_get_test
            (init_suite default_config
               (failing_client (''Connection refused'' @ [newline] @ ''retry later'')) ())
            ''t'' ''/users/2'' 200 None)"

section \<open>Lemmas on splitting and joining\<close>

lemma str_split_not_Nil: "str_split c s \<noteq> []"
  by (induction s) (auto split: list.splits)

lemma join_Cons: "ys \<noteq> [] \<Longrightarrow> join sep (x # ys) = x @ sep @ join sep ys"
  by (cases ys) simp_all

lemma join_str_split: "join [c] (str_split c s) = s"
proof (induction s)
  case Nil
  show ?case by simp
next
  case (Cons x xs)
  obtain p ps where sp: "str_split c xs = p # ps"
    using str_split_not_Nil [of c xs] by (cases "str_split c xs") auto
  show ?case
  proof (cases "x = c")
    case True
    with Cons show ?thesis by (simp add: join_Cons str_split_not_Nil)
  next
    case False
    with Cons sp show ?thesis by (cases ps) auto
  qed
qed

lemma str_split_no_sep: "seg \<in> set (str_split c s) \<Longrightarrow> c \<notin> set seg"
proof (induction s arbitrary: seg)
  case Nil
  then show ?case by simp
next
  case (Cons x xs)
  then show ?case
    by (cases "str_split c xs") (auto split: if_splits)
qed

lemma str_split_no_sep_id: "c \<notin> set s \<Longrightarrow> str_split c s = [s]"
  by (induction s) auto

lemma str_split_append_sep:
  "c \<notin> set s \<Longrightarrow> str_split c (s @ c # t) = s # str_split c t"
  by (induction s) auto

lemma str_split_join:
  "segs \<noteq> [] \<Longrightarrow> \<forall>seg \<in> set segs. c \<notin> set seg \<Longrightarrow> str_split c (join [c] segs) = segs"
proof (induction segs)
  case Nil
  then show ?case by simp
next
  case (Cons s segs)
  show ?case
  proof (cases segs)
    case Nil
    with Cons.prems show ?thesis by (simp add: str_split_no_sep_id)
  next
    case (Cons t ts)
    with Cons.prems Cons.IH show ?thesis
      by (simp add: str_split_append_sep)
  qed
qed

section \<open>Evaluating the definitions on concrete inputs\<close>

lemma str_nat_small: "n < 10 \<Longrightarrow> str_nat n = [digit_char n]"
  by (simp add: str_nat.simps)

lemma str_nat_large: "10 \<le> n \<Longrightarrow> str_nat n = str_nat (n div 10) @ [digit_char n]"
  by (subst str_nat.simps) simp

lemma floor_rat_divide_numeral:
  "\<lfloor>numeral a / numeral b :: rat\<rfloor> = numeral a div numeral b"
  by (metis floor_divide_of_int_eq of_int_numeral)

lemma bit_length_0: "bit_length 0 = 0"
  by (simp add: bit_length.simps)

lemma bit_length_pos: "0 < n \<Longrightarrow> bit_length n = Suc (bit_length (n div 2))"
  by (subst bit_length.simps) simp

lemma ceiling_rat_divide_numeral:
  "\<lceil>numeral a / numeral b :: rat\<rceil> = - ((- numeral a) div numeral b)"
  by (metis ceiling_divide_eq_div of_int_numeral)

lemmas float_eval = round_double_def floor_log2_def pow2_def round_half_even_def Let_def
  bit_length_0 bit_length_pos floor_rat_divide_numeral ceiling_rat_divide_numeral
  total_seconds_def float_mul_def response_elapsed_ms_def

lemmas fmt_eval = format_2f_def round_half_even_def Let_def str_nat_small str_nat_large
  digit_char_def str_int_def str_opt_int_def floor_rat_divide_numeral

lemmas msg_eval = status_message_def latency_message_def invalid_json_message_def
  missing_path_message_def all_checks_passed_def

lemmas check_eval = run_checks_def check_status_def check_latency_def check_json_def
  has_json_path_def init_suite_def default_config_def float_eval

lemmas example_eval = example_suite_def example_response_def refusing_client_def
  failing_client_def
  serving_client_def

section \<open>Lemmas on floating point rounding\<close>

text \<open>
  \<open>round_double q\<close> is a number with a mantissa of 53 binary digits that is nearest to
  \<open>q\<close>: it differs from \<open>q\<close> by at most half a unit of the last digit, and it leaves
  a number with such a mantissa as it is.
\<close>

lemma bit_length_bounds:
  "0 < n \<Longrightarrow> 2 ^ (bit_length n - 1) \<le> n \<and> n < 2 ^ bit_length n"
proof (induction n rule: bit_length.induct)
  case (1 n)
  have bl: "bit_length n = Suc (bit_length (n div 2))"
    using "1.prems" by (rule bit_length_pos)
  show ?case
  proof (cases "n div 2 = 0")
    case True
    with "1.prems" have "n = 1" by (simp add: div_eq_0_iff)
    with bl True show ?thesis by (simp add: bit_length_0)
  next
    case False
    then have pos: "0 < n div 2" by simp
    with "1.IH" "1.prems"
    have ih: "2 ^ (bit_length (n div 2) - 1) \<le> n div 2" "n div 2 < 2 ^ bit_length (n div 2)"
      by simp_all
    from pos have "bit_length (n div 2) = Suc (bit_length (n div 2 div 2))"
      by (rule bit_length_pos)
    then obtain k where k: "bit_length (n div 2) = Suc k" by blast
    from ih k have "2 ^ k \<le> n div 2" "n div 2 < 2 ^ Suc k" by simp_all
    then have "2 * 2 ^ k \<le> n" "n < 2 * 2 ^ Suc k" by linarith+
    with bl k show ?thesis by simp
  qed
qed

lemma power2_le_floor: "(2::nat) ^ k \<le> nat \<lfloor>q::rat\<rfloor> \<Longrightarrow> (2::rat) ^ k \<le> q"
proof -
  assume "(2::nat) ^ k \<le> nat \<lfloor>q\<rfloor>"
  then have "(2::int) ^ k \<le> \<lfloor>q\<rfloor>" by simp
  then have "of_int ((2::int) ^ k) \<le> q" by (simp only: le_floor_iff)
  then show ?thesis by simp
qed

lemma floor_less_power2: "nat \<lfloor>q::rat\<rfloor> < (2::nat) ^ k \<Longrightarrow> q < (2::rat) ^ k"
  by (metis floor_numeral_power floor_less_cancel nat_less_numeral_power_cancel_iff)

lemma power2_less_ceiling: "(2::nat) ^ k \<le> nat (\<lceil>y::rat\<rceil> - 1) \<Longrightarrow> (2::rat) ^ k < y"
  by (metis ceiling_numeral_power ceiling_less_cancel numeral_power_le_nat_cancel_iff zle_diff1_eq)

lemma ceiling_le_power2: "nat (\<lceil>y::rat\<rceil> - 1) < (2::nat) ^ k \<Longrightarrow> y \<le> (2::rat) ^ k"
proof -
  assume "nat (\<lceil>y\<rceil> - 1) < (2::nat) ^ k"
  then have "\<lceil>y\<rceil> - 1 < (2::int) ^ k" by simp
  then have "\<lceil>y\<rceil> \<le> (2::int) ^ k" by simp
  then have "y \<le> of_int ((2::int) ^ k)" by (simp only: ceiling_le_iff)
  then show ?thesis by simp
qed

lemma pow2_powi: "pow2 e = 2 powi e"
  by (simp add: pow2_def power_int_def inverse_eq_divide power_one_over)

lemma pow2_pos: "0 < pow2 e"
  by (simp add: pow2_def)

lemma pow2_add: "pow2 (a + b) = pow2 a * pow2 b"
  unfolding pow2_powi by (rule power_int_add) simp

lemma pow2_of_nat: "pow2 (int k) = 2 ^ k"
  by (simp add: pow2_def)

lemma pow2_neg_nat: "pow2 (- int k) = 1 / 2 ^ k"
  by (cases k) (simp_all add: pow2_def nat_add_distrib)

lemma floor_log2_bounds:
  assumes "0 < q"
  shows "pow2 (floor_log2 q) \<le> q \<and> q < pow2 (floor_log2 q + 1)"
proof (cases "1 \<le> q")
  case True
  let ?n = "nat \<lfloor>q\<rfloor>"
  from True have n: "0 < ?n" by simp
  from True have fl: "floor_log2 q = int (bit_length ?n) - 1"
    by (simp add: floor_log2_def)
  from n bit_length_pos obtain k where k: "bit_length ?n = Suc k" by blast
  from bit_length_bounds [OF n] k have b: "2 ^ k \<le> ?n" "?n < 2 ^ Suc k" by simp_all
  have e: "floor_log2 q = int k" using fl k by simp
  from b(1) have lo: "(2::rat) ^ k \<le> q" by (rule power2_le_floor)
  from b(2) have hi: "q < (2::rat) ^ Suc k" by (rule floor_less_power2)
  have "pow2 (int k + 1) = 2 ^ Suc k"
    using pow2_of_nat [of "Suc k"] by (simp add: add.commute)
  with lo hi e show ?thesis by (simp add: pow2_of_nat)
next
  case False
  with assms have q1: "q < 1" by simp
  let ?y = "1 / q"
  from assms q1 have y1: "1 < ?y" by simp
  then have "1 < \<lceil>?y\<rceil>" by (simp only: less_ceiling_iff of_int_1)
  then have n: "0 < nat (\<lceil>?y\<rceil> - 1)" by simp
  let ?n = "nat (\<lceil>?y\<rceil> - 1)"
  from False have fl: "floor_log2 q = - int (bit_length ?n)"
    by (simp add: floor_log2_def)
  from n bit_length_pos obtain k where k: "bit_length ?n = Suc k" by blast
  from bit_length_bounds [OF n] k have b: "2 ^ k \<le> ?n" "?n < 2 ^ Suc k" by simp_all
  from b(1) have ylo: "(2::rat) ^ k < ?y" by (rule power2_less_ceiling)
  from b(2) have yhi: "?y \<le> (2::rat) ^ Suc k" by (rule ceiling_le_power2)
  from yhi assms have lo: "1 / 2 ^ Suc k \<le> q"
    by (simp add: field_simps)
  from ylo assms have hi: "q < 1 / 2 ^ k"
    by (simp add: field_simps)
  have e1: "pow2 (floor_log2 q) = 1 / 2 ^ Suc k"
    using fl k pow2_neg_nat [of "Suc k"] by simp
  have "floor_log2 q + 1 = - int k" using fl k by simp
  then have e2: "pow2 (floor_log2 q + 1) = 1 / 2 ^ k"
    by (simp add: pow2_neg_nat)
  from lo hi e1 e2 show ?thesis by simp
qed

lemma pow2_mono: "a \<le> b \<Longrightarrow> pow2 a \<le> pow2 b"
  unfolding pow2_powi by (rule power_int_increasing) simp_all

lemma floor_log2_unique:
  assumes "pow2 a \<le> q" and "q < pow2 (a + 1)"
  shows "floor_log2 q = a"
proof -
  from assms(1) pow2_pos [of a] have q: "0 < q" by simp
  let ?b = "floor_log2 q"
  from floor_log2_bounds [OF q] have b: "pow2 ?b \<le> q" "q < pow2 (?b + 1)" by simp_all
  have "\<not> ?b + 1 \<le> a"
  proof
    assume "?b + 1 \<le> a"
    then have "pow2 (?b + 1) \<le> pow2 a" by (rule pow2_mono)
    with assms(1) b(2) show False by simp
  qed
  moreover have "\<not> a + 1 \<le> ?b"
  proof
    assume "a + 1 \<le> ?b"
    then have "pow2 (a + 1) \<le> pow2 ?b" by (rule pow2_mono)
    with assms(2) b(1) show False by simp
  qed
  ultimately show ?thesis by simp
qed

lemma round_half_even_error_aux:
  "0 \<le> f \<Longrightarrow> f < 1 \<Longrightarrow>
   \<bar>of_int (if f < 1 / 2 then n else if 1 / 2 < f then n + 1
               else if even n then n else n + 1) - (of_int n + f :: rat)\<bar> \<le> 1 / 2"
  by (auto simp: abs_if)

lemma round_half_even_error: "\<bar>of_int (round_half_even x) - x\<bar> \<le> 1 / 2"
proof -
  define n where "n = \<lfloor>x\<rfloor>"
  define f where "f = x - of_int n"
  have f0: "0 \<le> f" and f1: "f < 1"
    unfolding f_def n_def by linarith+
  have xf: "x = of_int n + f" by (simp add: f_def)
  have r: "round_half_even x =
      (if f < 1 / 2 then n else if 1 / 2 < f then n + 1 else if even n then n else n + 1)"
    by (simp add: round_half_even_def Let_def n_def f_def)
  from round_half_even_error_aux [OF f0 f1, of n] r
  have "\<bar>of_int (round_half_even x) - (of_int n + f)\<bar> \<le> 1 / 2" by simp
  then show ?thesis by (simp only: xf [symmetric])
qed

lemma round_half_even_of_int: "round_half_even (of_int m) = m"
  by (simp add: round_half_even_def)

lemma round_half_even_mono:
  assumes "of_int a \<le> x"
  shows "a \<le> round_half_even x"
proof -
  from assms have "a \<le> \<lfloor>x\<rfloor>" by (simp add: le_floor_iff)
  then show ?thesis by (auto simp: round_half_even_def Let_def)
qed

lemma round_half_even_le:
  assumes "x \<le> of_int b"
  shows "round_half_even x \<le> b"
proof (cases "x = of_int b")
  case True
  then show ?thesis by (simp add: round_half_even_of_int)
next
  case False
  with assms have "x < of_int b" by simp
  then have "\<lfloor>x\<rfloor> < b" by (simp add: floor_less_iff)
  then show ?thesis by (auto simp: round_half_even_def Let_def)
qed

lemma mantissa_bounds:
  assumes "q \<noteq> 0"
  shows "2 ^ 52 \<le> \<bar>q\<bar> / pow2 (floor_log2 \<bar>q\<bar> - 52)"
    and "\<bar>q\<bar> / pow2 (floor_log2 \<bar>q\<bar> - 52) < 2 ^ 53"
proof -
  let ?f = "floor_log2 \<bar>q\<bar>"
  from assms have "0 < \<bar>q\<bar>" by simp
  from floor_log2_bounds [OF this] have b: "pow2 ?f \<le> \<bar>q\<bar>" "\<bar>q\<bar> < pow2 (?f + 1)" by simp_all
  have p52: "pow2 52 = 2 ^ 52" using pow2_of_nat [of 52] by simp
  have p53: "pow2 53 = 2 ^ 53" using pow2_of_nat [of 53] by simp
  have "pow2 ?f = pow2 ((?f - 52) + 52)" by simp
  also have "\<dots> = pow2 (?f - 52) * pow2 52" by (rule pow2_add)
  finally have f: "pow2 ?f = pow2 (?f - 52) * 2 ^ 52" by (simp only: p52)
  have "pow2 (?f + 1) = pow2 ((?f - 52) + 53)" by (simp add: algebra_simps)
  also have "\<dots> = pow2 (?f - 52) * pow2 53" by (rule pow2_add)
  finally have g: "pow2 (?f + 1) = pow2 (?f - 52) * 2 ^ 53" by (simp only: p53)
  from b(1) f pow2_pos [of "?f - 52"]
  show "2 ^ 52 \<le> \<bar>q\<bar> / pow2 (?f - 52)"
    by (simp add: pos_le_divide_eq mult.commute)
  from b(2) g pow2_pos [of "?f - 52"]
  show "\<bar>q\<bar> / pow2 (?f - 52) < 2 ^ 53"
    by (simp add: pos_divide_less_eq mult.commute)
qed

lemma round_double_nearest:
  assumes "q \<noteq> 0"
  shows "\<exists>m. round_double q = sgn q * of_int m * pow2 (floor_log2 \<bar>q\<bar> - 52)
           \<and> 2 ^ 52 \<le> m \<and> m \<le> 2 ^ 53
           \<and> \<bar>round_double q - q\<bar> \<le> pow2 (floor_log2 \<bar>q\<bar> - 52) / 2"
proof -
  let ?e = "floor_log2 \<bar>q\<bar> - 52"
  let ?x = "\<bar>q\<bar> / pow2 ?e"
  let ?m = "round_half_even ?x"
  have rd: "round_double q = sgn q * of_int ?m * pow2 ?e"
    using assms by (simp add: round_double_def Let_def)
  from mantissa_bounds [OF assms] have x: "2 ^ 52 \<le> ?x" "?x < 2 ^ 53" by simp_all
  from x(1) have "of_int (2 ^ 52) \<le> ?x" by simp
  then have lo: "2 ^ 52 \<le> ?m" by (rule round_half_even_mono)
  from x(2) have "?x \<le> of_int (2 ^ 53)" by simp
  then have hi: "?m \<le> 2 ^ 53" by (rule round_half_even_le)
  have p: "0 < pow2 ?e" by (rule pow2_pos)
  have "sgn q * ?x * pow2 ?e = sgn q * \<bar>q\<bar>"
    using p by simp
  also have "\<dots> = q" by (rule mult_sgn_abs)
  finally have q: "q = sgn q * ?x * pow2 ?e" by (rule sym)
  have "round_double q - q = sgn q * (of_int ?m - ?x) * pow2 ?e"
    by (subst q, subst rd) (simp add: algebra_simps)
  then have "\<bar>round_double q - q\<bar> = \<bar>of_int ?m - ?x\<bar> * pow2 ?e"
    using assms p by (simp add: abs_mult abs_sgn_eq)
  also have "\<dots> \<le> 1 / 2 * pow2 ?e"
    using round_half_even_error [of ?x] p by (intro mult_right_mono) simp_all
  finally have "\<bar>round_double q - q\<bar> \<le> pow2 ?e / 2" by simp
  with rd lo hi show ?thesis by blast
qed

lemma round_double_representable:
  assumes "2 ^ 52 \<le> \<bar>m\<bar>" and "\<bar>m\<bar> < 2 ^ 53"
  shows "round_double (of_int m * pow2 e) = of_int m * pow2 e"
proof -
  let ?q = "of_int m * pow2 e :: rat"
  have p: "0 < pow2 e" by (rule pow2_pos)
  from assms(1) have m0: "m \<noteq> 0" by auto
  with p have q0: "?q \<noteq> 0" by simp
  define a :: rat where "a = of_int \<bar>m\<bar>"
  have aq: "\<bar>?q\<bar> = a * pow2 e"
    using p by (simp add: abs_mult a_def)
  have a52: "2 ^ 52 \<le> a"
    unfolding a_def using assms(1) by (metis of_int_le_iff of_int_numeral of_int_power)
  have a53: "a < 2 ^ 53"
    unfolding a_def using assms(2) by (metis of_int_less_iff of_int_numeral of_int_power)
  have p52: "pow2 52 = 2 ^ 52" using pow2_of_nat [of 52] by simp
  have p53: "pow2 53 = 2 ^ 53" using pow2_of_nat [of 53] by simp
  have "pow2 (e + 52) = pow2 52 * pow2 e"
    using pow2_add [of 52 e] by (simp add: add.commute)
  also have "\<dots> \<le> a * pow2 e"
    unfolding p52 using a52 p by (intro mult_right_mono) simp_all
  finally have lo: "pow2 (e + 52) \<le> \<bar>?q\<bar>" by (simp only: aq)
  have "a * pow2 e < pow2 53 * pow2 e"
    unfolding p53 using a53 p by (intro mult_strict_right_mono) simp_all
  also have "\<dots> = pow2 (e + 52 + 1)"
    using pow2_add [of 53 e] by (simp add: algebra_simps)
  finally have hi: "\<bar>?q\<bar> < pow2 (e + 52 + 1)" by (simp only: aq)
  from floor_log2_unique [OF lo hi] have fl: "floor_log2 \<bar>?q\<bar> - 52 = e" by simp
  have "\<bar>?q\<bar> / pow2 e = of_int \<bar>m\<bar>"
    using p by (simp add: aq a_def)
  then have "round_half_even (\<bar>?q\<bar> / pow2 (floor_log2 \<bar>?q\<bar> - 52)) = \<bar>m\<bar>"
    by (simp only: fl round_half_even_of_int)
  moreover have "sgn ?q = of_int (sgn m)"
  proof -
    have "sgn (pow2 e) = 1" using p by simp
    then have "sgn ?q = sgn (of_int m :: rat)" by (simp add: sgn_mult)
    also have "\<dots> = of_int (sgn m)" by (simp add: sgn_if)
    finally show ?thesis .
  qed
  ultimately have "round_double ?q = of_int (sgn m) * of_int \<bar>m\<bar> * pow2 e"
    using q0 fl by (simp add: round_double_def Let_def)
  also have "of_int (sgn m) * of_int \<bar>m\<bar> = (of_int m :: rat)"
    by (metis mult_sgn_abs of_int_mult)
  finally show ?thesis .
qed

section \<open>Lemmas on the path walk\<close>

lemma walk_parts_reaches: "walk_parts d ks \<longleftrightarrow> (\<exists>v. reaches d ks v)"
proof (induction ks arbitrary: d)
  case Nil
  show ?case by (auto intro: reaches.intros)
next
  case (Cons k ks)
  show ?case
  proof
    assume "walk_parts d (k # ks)"
    then obtain m v where "d = JObj m" "map_of m k = Some v" "walk_parts v ks"
      by (auto split: json.splits option.splits)
    with Cons.IH show "\<exists>w. reaches d (k # ks) w"
      by (auto intro: reaches.intros)
  next
    assume "\<exists>w. reaches d (k # ks) w"
    then obtain w where "reaches d (k # ks) w" ..
    then show "walk_parts d (k # ks)"
      using Cons.IH by cases auto
  qed
qed

inductive_cases reaches_NilE: "reaches d [] v"

inductive_cases reaches_ConsE: "reaches d (k # ks) w"

lemma walk_parts_fails_iff:
  "\<not> walk_parts d ks \<longleftrightarrow>
     (\<exists>pre k post v. ks = pre @ k # post \<and> reaches d pre v
        \<and> (\<forall>m. v = JObj m \<longrightarrow> map_of m k = None))"
proof (induction ks arbitrary: d)
  case Nil
  show ?case by simp
next
  case (Cons k ks)
  show ?case
  proof (cases "\<exists>m v. d = JObj m \<and> map_of m k = Some v")
    case False
    then have stop: "\<forall>m. d = JObj m \<longrightarrow> map_of m k = None"
      by auto
    have "\<not> walk_parts d (k # ks)"
      using False by (auto split: json.splits option.splits)
    moreover have "k # ks = [] @ k # ks \<and> reaches d [] d" 
      by (simp add: reaches_Nil)
    ultimately show ?thesis using stop by blast
  next
    case True
    then obtain m v where d: "d = JObj m" and mk: "map_of m k = Some v"
      by blast
    have w: "walk_parts d (k # ks) = walk_parts v ks"
      by (simp add: d mk)
    show ?thesis
    proof
      assume "\<not> walk_parts d (k # ks)"
      with w Cons.IH [of v] obtain pre k' post u
        where "ks = pre @ k' # post" "reaches v pre u"
          "\<forall>m. u = JObj m \<longrightarrow> map_of m k' = None"
        by blast
      then have "k # ks = (k # pre) @ k' # post \<and> reaches d (k # pre) u
          \<and> (\<forall>m. u = JObj m \<longrightarrow> map_of m k' = None)"
        by (simp add: d mk reaches_Cons)
      then show "\<exists>pre k' post u. k # ks = pre @ k' # post \<and> reaches d pre u
          \<and> (\<forall>m. u = JObj m \<longrightarrow> map_of m k' = None)"
        by blast
    next
      assume "\<exists>pre k' post u. k # ks = pre @ k' # post \<and> reaches d pre u
          \<and> (\<forall>m. u = JObj m \<longrightarrow> map_of m k' = None)"
      then obtain pre k' post u where
        eq: "k # ks = pre @ k' # post" and r: "reaches d pre u"
        and stop: "\<forall>m. u = JObj m \<longrightarrow> map_of m k' = None"
        by blast
      show "\<not> walk_parts d (k # ks)"
      proof (cases pre)
        case Nil
        with eq r have "k' = k" "u = d" by (auto elim: reaches_NilE)
        with stop d mk show ?thesis by simp
      next
        case (Cons a pre')
        with eq have a: "a = k" and ks: "ks = pre' @ k' # post" by simp_all
        from r Cons a d mk have "reaches v pre' u"
          by (auto elim: reaches_ConsE)
        with ks stop Cons.IH [of v] have "\<not> walk_parts v ks" by blast
        with w show ?thesis by simp
      qed
    qed
  qed
qed

section \<open>The JSON path checker\<close>

text \<open>
  Claim C2. \<open>has_json_path d p\<close> holds exactly when the segments of \<open>p\<close>, split at its
  dots, resolve one after the other, left to right, as keys of nested mappings of \<open>d\<close>.
  The segments are the one way of writing \<open>p\<close> as dot-free pieces joined by dots. The
  result is false exactly when, after some segments have resolved, the value reached is
  not a mapping or lacks the next segment as a key. The function is total: it returns
  a boolean for every document and every path.
\<close>

theorem has_json_path_walks_segments:
  "join ''.'' (str_split CHR ''.'' p) = p
   \<and> (\<forall>seg \<in> set (str_split CHR ''.'' p). CHR ''.'' \<notin> set seg)
   \<and> (\<forall>segs. segs \<noteq> [] \<and> (\<forall>seg \<in> set segs. CHR ''.'' \<notin> set seg) \<and> join ''.'' segs = p
         \<longrightarrow> (has_json_path d p \<longleftrightarrow> (\<exists>v. reaches d segs v)))
   \<and> (has_json_path d p \<longleftrightarrow> (\<exists>v. reaches d (str_split CHR ''.'' p) v))
   \<and> (\<not> has_json_path d p \<longleftrightarrow>
        (\<exists>pre k post v. str_split CHR ''.'' p = pre @ k # post \<and> reaches d pre v
           \<and> (\<forall>m. v = JObj m \<longrightarrow> map_of m k = None)))"
proof (intro conjI allI impI)
  show "join ''.'' (str_split CHR ''.'' p) = p"
    by (rule join_str_split)
  show "\<forall>seg \<in> set (str_split CHR ''.'' p). CHR ''.'' \<notin> set seg"
    by (simp add: str_split_no_sep)
  show "has_json_path d p \<longleftrightarrow> (\<exists>v. reaches d (str_split CHR ''.'' p) v)"
    by (simp add: has_json_path_def walk_parts_reaches)
  show "\<not> has_json_path d p \<longleftrightarrow>
        (\<exists>pre k post v. str_split CHR ''.'' p = pre @ k # post \<and> reaches d pre v
           \<and> (\<forall>m. v = JObj m \<longrightarrow> map_of m k = None))"
    unfolding has_json_path_def by (rule walk_parts_fails_iff)
next
  fix segs
  assume a: "segs \<noteq> [] \<and> (\<forall>seg \<in> set segs. CHR ''.'' \<notin> set seg) \<and> join ''.'' segs = p"
  then have "str_split CHR ''.'' p = segs"
    using str_split_join [of segs "CHR ''.''"] by auto
  then show "has_json_path d p \<longleftrightarrow> (\<exists>v. reaches d segs v)"
    by (simp add: has_json_path_def walk_parts_reaches)
qed

theorem has_json_path_walks_segments_witness:
  "(\<exists>v. reaches (JObj [(''data'', JObj [(''id'', JInt 7)])]) [''data'', ''id''] v)
   \<and> (\<exists>pre k post v. str_split CHR ''.'' ''data.email'' = pre @ k # post
         \<and> reaches (JObj [(''data'', JObj [(''id'', JInt 7)])]) pre v
         \<and> (\<forall>m. v = JObj m \<longrightarrow> map_of m k = None))"
proof -
  let ?d = "JObj [(''data'', JObj [(''id'', JInt 7)])]"
  have yes: "has_json_path ?d ''data.id''" by code_simp
  have no: "\<not> has_json_path ?d ''data.email''" by code_simp
  have segs: "[''data'', ''id''] \<noteq> [] \<and> (\<forall>seg \<in> set [''data'', ''id'']. CHR ''.'' \<notin> set seg)
      \<and> join ''.'' [''data'', ''id''] = ''data.id''"
    by simp
  from has_json_path_walks_segments [of "''data.id''" ?d] yes segs
  have "\<exists>v. reaches ?d [''data'', ''id''] v" by blast
  moreover from has_json_path_walks_segments [of "''data.email''" ?d] no
  have "\<exists>pre k post v. str_split CHR ''.'' ''data.email'' = pre @ k # post
         \<and> reaches ?d pre v \<and> (\<forall>m. v = JObj m \<longrightarrow> map_of m k = None)"
    by blast
  ultimately show ?thesis by blast
qed

text \<open>
  Claim C3 says that the empty path is never found. It splits into the single segment
  that is the empty string, so a mapping with the empty string as a key does contain it.
\<close>

theorem has_json_path_empty_path_counterexample:
  "has_json_path (JObj [('''', JInt 1)]) '''' = True"
  by (simp add: has_json_path_def)

text \<open>
  Claim C3, amended. The empty path is found in \<open>d\<close> exactly when \<open>d\<close> is a mapping
  with the empty string as a key; for every other document the result is false.
\<close>

theorem has_json_path_empty_path:
  "has_json_path d '''' \<longleftrightarrow> (\<exists>m v. d = JObj m \<and> map_of m '''' = Some v)"
  by (auto simp: has_json_path_def split: json.splits option.splits)

theorem has_json_path_empty_path_witness:
  "\<not> has_json_path (JObj [(''id'', JInt 7)]) '''' \<and> \<not> has_json_path (JArr []) ''''
   \<and> \<not> has_json_path JNull ''''"
  using has_json_path_empty_path [of "JObj [(''id'', JInt 7)]"]
    has_json_path_empty_path [of "JArr []"] has_json_path_empty_path [of JNull]
  by simp

section \<open>The response validator\<close>

lemma check_paths_eq:
  "check_paths payload ps st =
     (fst st \<and> (\<forall>p \<in> set ps. has_json_path payload p),
      snd st @ map missing_path_message (filter (\<lambda>p. \<not> has_json_path payload p) ps))"
  by (induction ps arbitrary: st) auto

lemma check_status_eq:
  "check_status code e st = (fst st \<and> code = e, snd st @ status_failures e code)"
  by (cases st) (simp add: check_status_def status_failures_def)

lemma check_latency_eq:
  "check_latency el lm st = (fst st \<and> el \<le> lm, snd st @ latency_failures el lm)"
  by (cases st) (simp add: check_latency_def latency_failures_def)

lemma check_json_Inr:
  assumes "check_json r req st = Inr st'"
  shows "snd st' = snd st @ json_failures (response_json r) req"
    and "fst st' = (fst st \<and> json_failures (response_json r) req = [])"
  using assms
  by (auto simp: check_json_def json_failures_def check_paths_eq invalid_json_message_def
      filter_empty_conv
      split: option.splits list.splits sum.splits exn.splits)

lemma run_checks_Inr:
  assumes "run_checks self r e req = Inr (ok, dl)"
  shows "dl = spec_failures (max_response_time_ms (config self)) r e req"
    and "ok = (dl = [])"
proof -
  let ?st = "check_latency (response_elapsed_ms r) (max_response_time_ms (config self))
              (check_status (response_status_code r) e (True, []))"
  from assms have cj: "check_json r req ?st = Inr (ok, dl)"
    by (simp add: run_checks_def Let_def)
  have st: "?st = (status_failures e (response_status_code r)
                     @ latency_failures (response_elapsed_ms r)
                         (max_response_time_ms (config self)) = [],
                   status_failures e (response_status_code r)
                     @ latency_failures (response_elapsed_ms r)
                         (max_response_time_ms (config self)))"
    by (auto simp: check_latency_eq check_status_eq status_failures_def latency_failures_def)
  from check_json_Inr(1) [OF cj] st
  show dl: "dl = spec_failures (max_response_time_ms (config self)) r e req"
    by (simp add: spec_failures_def)
  from check_json_Inr(2) [OF cj] st dl
  show "ok = (dl = [])"
    by (simp add: spec_failures_def)
qed

lemma run_checks_raises_iff:
  "run_checks self r e req = Inl exc \<longleftrightarrow>
     (\<exists>ps. req = Some ps \<and> ps \<noteq> []) \<and> response_json r = Inl exc
       \<and> (\<forall>msg. exc \<noteq> JSONDecodeError msg)"
  by (auto simp: run_checks_def check_json_def Let_def
      split: option.splits list.splits sum.splits exn.splits)


lemma validate_response_eq:
  assumes "run_checks self r e req = Inr (ok, dl)"
  shows "validate_response self nm r e req =
     Inr \<lparr>name = nm, success = ok, status_code = Some (response_status_code r),
          response_time_ms = Some (response_elapsed_ms r),
          details = join '' '' (if dl = [] then [all_checks_passed] else dl)\<rparr>"
  using assms by (simp add: validate_response_def)

lemma validate_response_InrD:
  assumes "validate_response self nm r e req = Inr v"
  obtains ok dl where "run_checks self r e req = Inr (ok, dl)"
  using assms by (auto simp: validate_response_def split: sum.splits)

lemma run_checks_returns:
  assumes "\<forall>exc. response_json r = Inl exc \<longrightarrow> (\<exists>msg. exc = JSONDecodeError msg)"
  shows "run_checks self r e req =
     Inr (spec_failures (max_response_time_ms (config self)) r e req = [],
          spec_failures (max_response_time_ms (config self)) r e req)"
proof (cases "run_checks self r e req")
  case (Inl exc)
  with assms show ?thesis
    by (auto simp: run_checks_raises_iff)
next
  case (Inr st)
  obtain ok dl where "st = (ok, dl)" by (cases st)
  with Inr run_checks_Inr [of self r e req ok dl] show ?thesis by simp
qed

text \<open>
  Claim C10. In every failing result of the validation, \<open>details\<close> is the failure
  messages joined by one space, in this order: the status mismatch (if any), the latency
  overrun (if any), then either the message of the unparsable body or one message for
  each missing path, in the order in which the required paths were given.
\<close>

theorem failing_details_order:
  assumes "validate_response self nm r e req = Inr v" and "\<not> success v"
  shows "details v =
     join '' ''
       (status_failures e (response_status_code r)
        @ latency_failures (response_elapsed_ms r)
            (max_response_time_ms (config self))
        @ json_failures (response_json r) req)"
proof -
  from assms(1) obtain ok dl where rc: "run_checks self r e req = Inr (ok, dl)"
    by (rule validate_response_InrD)
  from run_checks_Inr [OF rc]
  have dl: "dl = spec_failures (max_response_time_ms (config self)) r e req"
    and ok: "ok = (dl = [])" by simp_all
  from assms(1) validate_response_eq [OF rc, of nm]
  have v: "success v = ok" "details v = join '' '' (if dl = [] then [all_checks_passed] else dl)"
    by auto
  with assms(2) ok have "details v = join '' '' dl" by simp
  with dl show ?thesis by (simp add: spec_failures_def)
qed

theorem failing_details_order_witness:
  "validate_response boundary_suite ''t'' boundary_response 200 (Some [''a''])
     = Inr \<lparr>name = ''t'', success = False, status_code = Some 404,
            response_time_ms = Some (2007 + 1 / 2 ^ 42),
            details = ''Expected status 200, got 404. Response time 2007.00 ms exceeded limit 2007.00 ms. Missing JSON path: a''\<rparr>"
proof -
  let ?req = "Some [''a'']"
  have rc: "run_checks boundary_suite boundary_response 200 ?req =
      Inr (False, [''Expected status 200, got 404.'',
                   ''Response time 2007.00 ms exceeded limit 2007.00 ms.'',
                   ''Missing JSON path: a''])"
    by (simp add: boundary_suite_def boundary_response_def check_eval msg_eval fmt_eval)
  then obtain v where v: "validate_response boundary_suite ''t'' boundary_response 200 ?req = Inr v"
    and nm: "name v = ''t''" and s: "\<not> success v" and sc: "status_code v = Some 404"
    and rt: "response_time_ms v = Some (2007 + 1 / 2 ^ 42)"
    by (simp add: validate_response_def boundary_response_def float_eval)
  have "details v = ''Expected status 200, got 404. Response time 2007.00 ms exceeded limit 2007.00 ms. Missing JSON path: a''"
    using failing_details_order [OF v s]
    by (simp add: boundary_suite_def boundary_response_def check_eval msg_eval fmt_eval
        status_failures_def latency_failures_def json_failures_def)
  with v nm s sc rt show ?thesis by (cases v) simp
qed











text \<open>
  The rounding of the product decides at the boundary: a response that took 2.007
  seconds has an elapsed time of 2007.0000000000002 milliseconds, and exceeds a limit of
  2007 milliseconds; one that took 1.001 seconds has an elapsed time just below 1001
  milliseconds; and 0.8 seconds are exactly 800 milliseconds.
\<close>

lemma rounded_product_examples:
  "response_elapsed_ms boundary_response = 2007 + 1 / 2 ^ 42"
  "max_response_time_ms (config boundary_suite) < response_elapsed_ms boundary_response"
  "response_elapsed_ms (boundary_response\<lparr>elapsed := 1001000\<rparr>) = 1001 - 1 / 2 ^ 43"
  "response_elapsed_ms limit_response = 800"
  "response_elapsed_ms example_response = 950"
  "format_2f (response_elapsed_ms slow_response) = ''800.01''"
  by (simp_all add: boundary_response_def boundary_suite_def limit_response_def
      example_response_def slow_response_def init_suite_def default_config_def float_eval
      fmt_eval)

text \<open>
  Claim C9. The result of the validation is a function of the name, the response, the
  expected status, the required paths and the latency limit alone: two suites with the
  same limit give the same result, field for field, and so does the suite after it has
  run another test, which changes its results and the network.
\<close>

theorem validate_response_deterministic:
  "(max_response_time_ms (config self1) = max_response_time_ms (config self2)
      \<longrightarrow> validate_response self1 nm r e req = validate_response self2 nm r e req)
   \<and> validate_response (snd (run_get_test self nm1 path1 e1 req1)) nm r e req
       = validate_response self nm r e req
   \<and> validate_response (snd (run_post_test self nm1 path1 payload1 e1 req1)) nm r e req
       = validate_response self nm r e req"
  by (simp add: validate_response_def run_checks_def run_get_test_def run_post_test_def
      Let_def split: prod.splits)

theorem validate_response_deterministic_witness:
  "validate_response (snd (run_get_test example_suite ''first'' ''/users/2'' 200 None))
      ''t'' example_response 200 None
     = validate_response example_suite ''t'' example_response 200 None
   \<and> validate_response (example_suite\<lparr>results := [], net := ()\<rparr>) ''t'' example_response 200 None
     = validate_response example_suite ''t'' example_response 200 None"
proof -
  have "max_response_time_ms (config (example_suite\<lparr>results := [], net := ()\<rparr>))
      = max_response_time_ms (config example_suite)" by simp
  with validate_response_deterministic
    [where ?self1.0 = "example_suite\<lparr>results := [], net := ()\<rparr>"
       and ?self2.0 = example_suite and nm = "''t''" and r = example_response
       and e = 200 and req = None and self = example_suite and ?nm1.0 = "''first''"
       and ?path1.0 = "''/users/2''" and ?e1.0 = 200 and ?req1.0 = None]
  show ?thesis by blast
qed

section \<open>The orchestrator\<close>

lemma details_exception_result:
  "details (exception_result nm exc) = ''Exception while executing test: '' @ str_exn exc"
  by (simp add: exception_result_def)

lemma exception_result_describes:
  "sublist (str_exn exc) (details (exception_result nm exc))"
  unfolding details_exception_result by (rule sublist_append_leftI)

lemma run_get_test_raises:
  assumes "get (client self) path (net self) = (Inl exc, w)"
  shows "run_get_test self nm path e req =
     (exception_result nm exc,
      self\<lparr>results := results self @ [exception_result nm exc], net := w\<rparr>)"
  using assms by (simp add: run_get_test_def Let_def)

lemma run_post_test_raises:
  assumes "post (client self) path payload (net self) = (Inl exc, w)"
  shows "run_post_test self nm path payload e req =
     (exception_result nm exc,
      self\<lparr>results := results self @ [exception_result nm exc], net := w\<rparr>)"
  using assms by (simp add: run_post_test_def Let_def)

text \<open>
  Claim C1. When the request of \<open>run_get_test\<close> or of \<open>run_post_test\<close> raises, the
  operation returns a result with \<open>success = False\<close>, no status code, no response time
  and \<open>details\<close> holding the description of the exception, and appends this result to
  the results of the suite. The operations return a result for every outcome of the
  request: nothing is raised to the caller.
\<close>

theorem transport_failure_result:
  "(get (client self) path (net self) = (Inl exc, w) \<longrightarrow>
      run_get_test self nm path e req =
        (\<lparr>name = nm, success = False, status_code = None, response_time_ms = None,
          details = ''Exception while executing test: '' @ str_exn exc\<rparr>,
         self\<lparr>results := results self
                 @ [\<lparr>name = nm, success = False, status_code = None, response_time_ms = None,
                     details = ''Exception while executing test: '' @ str_exn exc\<rparr>],
               net := w\<rparr>)
      \<and> sublist (str_exn exc) (details (fst (run_get_test self nm path e req))))
   \<and> (post (client self) path payload (net self) = (Inl exc, w) \<longrightarrow>
      run_post_test self nm path payload e req =
        (\<lparr>name = nm, success = False, status_code = None, response_time_ms = None,
          details = ''Exception while executing test: '' @ str_exn exc\<rparr>,
         self\<lparr>results := results self
                 @ [\<lparr>name = nm, success = False, status_code = None, response_time_ms = None,
                     details = ''Exception while executing test: '' @ str_exn exc\<rparr>],
               net := w\<rparr>)
      \<and> sublist (str_exn exc) (details (fst (run_post_test self nm path payload e req))))"
proof (intro conjI impI)
  assume g: "get (client self) path (net self) = (Inl exc, w)"
  from run_get_test_raises [OF g]
  show "run_get_test self nm path e req =
        (\<lparr>name = nm, success = False, status_code = None, response_time_ms = None,
          details = ''Exception while executing test: '' @ str_exn exc\<rparr>,
         self\<lparr>results := results self
                 @ [\<lparr>name = nm, success = False, status_code = None, response_time_ms = None,
                     details = ''Exception while executing test: '' @ str_exn exc\<rparr>],
               net := w\<rparr>)"
    by (simp only: exception_result_def)
  from run_get_test_raises [OF g] exception_result_describes
  show "sublist (str_exn exc) (details (fst (run_get_test self nm path e req)))"
    by (simp only: fst_conv)
next
  assume p: "post (client self) path payload (net self) = (Inl exc, w)"
  from run_post_test_raises [OF p]
  show "run_post_test self nm path payload e req =
        (\<lparr>name = nm, success = False, status_code = None, response_time_ms = None,
          details = ''Exception while executing test: '' @ str_exn exc\<rparr>,
         self\<lparr>results := results self
                 @ [\<lparr>name = nm, success = False, status_code = None, response_time_ms = None,
                     details = ''Exception while executing test: '' @ str_exn exc\<rparr>],
               net := w\<rparr>)"
    by (simp only: exception_result_def)
  from run_post_test_raises [OF p] exception_result_describes
  show "sublist (str_exn exc) (details (fst (run_post_test self nm path payload e req)))"
    by (simp only: fst_conv)
qed

theorem transport_failure_result_witness:
  "run_get_test example_suite ''GET single user'' ''/users/2'' 200 (Some [''data.id'']) =
     (\<lparr>name = ''GET single user'', success = False, status_code = None,
       response_time_ms = None,
       details = ''Exception while executing test: Connection refused''\<rparr>,
      example_suite\<lparr>results :=
        [\<lparr>name = ''GET single user'', success = False, status_code = None,
          response_time_ms = None,
          details = ''Exception while executing test: Connection refused''\<rparr>]\<rparr>)"
proof -
  have g: "get (client example_suite) ''/users/2'' (net example_suite)
      = (Inl (APIClientError ''Connection refused''), ())"
    by (simp add: example_eval init_suite_def)
  from transport_failure_result [of example_suite "''/users/2''" "APIClientError ''Connection refused''" "()"
      "''GET single user''" 200 "Some [''data.id'']"] g
  show ?thesis by (simp add: example_eval init_suite_def)
qed

section \<open>The invariant of a result\<close>

lemma prefix_join: "prefix m (join sep (m # ms))"
  by (cases ms) simp_all

lemma spec_failures_marker:
  assumes "m \<in> set (spec_failures lm r e req)"
  shows "\<exists>mk \<in> set failure_markers. prefix mk m"
proof -
  from assms consider
      "m \<in> set (status_failures e (response_status_code r))"
    | "m \<in> set (latency_failures (response_elapsed_ms r) lm)"
    | "m \<in> set (json_failures (response_json r) req)"
    by (auto simp: spec_failures_def)
  then show ?thesis
  proof cases
    case 1
    then have "prefix ''Expected status '' m"
      by (auto simp: status_failures_def status_message_def split: if_splits)
    then show ?thesis by (simp add: failure_markers_def)
  next
    case 2
    then have "prefix ''Response time '' m"
      by (auto simp: latency_failures_def latency_message_def split: if_splits)
    then show ?thesis by (simp add: failure_markers_def)
  next
    case 3
    then have "prefix ''Response is not valid JSON.'' m \<or> prefix ''Missing JSON path: '' m"
      by (cases req; cases "response_json r")
        (auto simp: json_failures_def invalid_json_message_def missing_path_message_def
          split: if_splits)
    then show ?thesis by (auto simp: failure_markers_def)
  qed
qed

lemma sentinel_no_failure: "\<not> contains_failure_message all_checks_passed"
proof
  assume "contains_failure_message all_checks_passed"
  then obtain mk where mk: "mk \<in> set failure_markers" and "sublist mk all_checks_passed"
    by (auto simp: contains_failure_message_def)
  then have "set mk \<subseteq> set all_checks_passed"
    by (simp add: set_mono_sublist)
  with mk show False
    by (auto simp: failure_markers_def all_checks_passed_def)
qed

lemma failing_details_contain_marker:
  assumes "dl = spec_failures lm r e req" and "dl \<noteq> []"
  shows "contains_failure_message (join '' '' dl)"
proof -
  from assms(2) obtain m ms where dl: "dl = m # ms" by (cases dl) auto
  with assms(1) have "m \<in> set (spec_failures lm r e req)"
    by (metis list.set_intros(1))
  with spec_failures_marker [of m lm r e req]
  obtain mk where mk: "mk \<in> set failure_markers" and "prefix mk m" by auto
  with prefix_join [of m "'' ''" ms] have "prefix mk (join '' '' dl)"
    by (auto simp: dl)
  then have "sublist mk (join '' '' dl)" by (rule prefix_imp_sublist)
  with mk show ?thesis by (auto simp: contains_failure_message_def)
qed

lemma validate_response_invariant:
  assumes "validate_response self nm r e req = Inr v"
  shows "verdict_invariant v" and "\<not> success v \<longrightarrow> contains_failure_message (details v)"
proof -
  from assms obtain ok dl where rc: "run_checks self r e req = Inr (ok, dl)"
    by (rule validate_response_InrD)
  from run_checks_Inr [OF rc]
  have dl: "dl = spec_failures (max_response_time_ms (config self)) r e req"
    and ok: "ok = (dl = [])" by simp_all
  from assms validate_response_eq [OF rc, of nm]
  have v: "success v = ok"
      "details v = join '' '' (if dl = [] then [all_checks_passed] else dl)"
      "status_code v \<noteq> None" "response_time_ms v \<noteq> None"
    by auto
  show "verdict_invariant v"
  proof (cases "dl = []")
    case True
    with v ok sentinel_no_failure show ?thesis
      by (auto simp: verdict_invariant_def)
  next
    case False
    with failing_details_contain_marker [OF dl] have "contains_failure_message (join '' '' dl)" .
    with sentinel_no_failure have "join '' '' dl \<noteq> all_checks_passed" by auto
    with False v ok show ?thesis by (auto simp: verdict_invariant_def)
  qed
  show "\<not> success v \<longrightarrow> contains_failure_message (details v)"
    using v ok failing_details_contain_marker [OF dl] by auto
qed

lemma exception_result_invariant:
  "verdict_invariant (exception_result nm exc)"
  "contains_failure_message (details (exception_result nm exc))"
proof -
  have "prefix ''Exception while executing test: '' (details (exception_result nm exc))"
    unfolding details_exception_result by (rule prefixI) simp
  then have "sublist ''Exception while executing test: '' (details (exception_result nm exc))"
    by (rule prefix_imp_sublist)
  then show c: "contains_failure_message (details (exception_result nm exc))"
    by (simp add: contains_failure_message_def failure_markers_def)
  with sentinel_no_failure have "details (exception_result nm exc) \<noteq> all_checks_passed"
    by auto
  then show "verdict_invariant (exception_result nm exc)"
    by (simp add: verdict_invariant_def) (simp add: exception_result_def)
qed

lemma run_get_test_fst:
  "fst (run_get_test self nm path e req) =
     (case fst (get (client self) path (net self)) of
        Inl exc \<Rightarrow> exception_result nm exc
      | Inr response \<Rightarrow>
          (case validate_response self nm response e req of
             Inl exc \<Rightarrow> exception_result nm exc
           | Inr r \<Rightarrow> r))"
  by (simp add: run_get_test_def Let_def split: prod.splits)

lemma run_post_test_fst:
  "fst (run_post_test self nm path payload e req) =
     (case fst (post (client self) path payload (net self)) of
        Inl exc \<Rightarrow> exception_result nm exc
      | Inr response \<Rightarrow>
          (case validate_response self nm response e req of
             Inl exc \<Rightarrow> exception_result nm exc
           | Inr r \<Rightarrow> r))"
  by (simp add: run_post_test_def Let_def split: prod.splits)

lemma run_get_test_invariant: "verdict_invariant (fst (run_get_test self nm path e req))"
  by (simp add: run_get_test_fst exception_result_invariant validate_response_invariant
      split: sum.splits)

lemma run_post_test_invariant:
  "verdict_invariant (fst (run_post_test self nm path payload e req))"
  by (simp add: run_post_test_fst exception_result_invariant validate_response_invariant
      split: sum.splits)

lemma run_get_test_results:
  "results (snd (run_get_test self nm path e req))
     = results self @ [fst (run_get_test self nm path e req)]"
  by (simp add: run_get_test_def Let_def split: prod.splits)

lemma run_post_test_results:
  "results (snd (run_post_test self nm path payload e req))
     = results self @ [fst (run_post_test self nm path payload e req)]"
  by (simp add: run_post_test_def Let_def split: prod.splits)

lemma run_call_results:
  "results (snd (run_call c self)) = results self @ [fst (run_call c self)]"
  by (cases c) (simp_all add: run_get_test_results run_post_test_results)

lemma run_call_invariant: "verdict_invariant (fst (run_call c self))"
  by (cases c) (simp_all add: run_get_test_invariant run_post_test_invariant)

lemma run_calls_results:
  "results (snd (run_calls cs self)) = results self @ fst (run_calls cs self)"
proof (induction cs arbitrary: self)
  case Nil
  show ?case by simp
next
  case (Cons c cs)
  obtain r s1 where c: "run_call c self = (r, s1)" by (cases "run_call c self")
  obtain rs s2 where cs: "run_calls cs s1 = (rs, s2)" by (cases "run_calls cs s1")
  from Cons.IH [of s1] cs have "results s2 = results s1 @ rs" by simp
  moreover from run_call_results [of c self] c have "results s1 = results self @ [r]" by simp
  ultimately show ?case by (simp add: c cs)
qed

lemma run_calls_invariant:
  "\<forall>v \<in> set (fst (run_calls cs self)). verdict_invariant v"
proof (induction cs arbitrary: self)
  case Nil
  show ?case by simp
next
  case (Cons c cs)
  obtain r s1 where c: "run_call c self = (r, s1)" by (cases "run_call c self")
  obtain rs s2 where cs: "run_calls cs s1 = (rs, s2)" by (cases "run_calls cs s1")
  from run_call_invariant [of c self] c have "verdict_invariant r" by simp
  moreover from Cons.IH [of s1] cs have "\<forall>v \<in> set rs. verdict_invariant v" by simp
  ultimately show ?case by (simp add: c cs)
qed

text \<open>
  Claim C5. Every result that the code builds, by the validation, in the exception
  branch, as the value of \<open>run_get_test\<close> or \<open>run_post_test\<close>, or as an entry of the
  results of a run, satisfies the invariant: a \<open>details\<close> that contains a failure
  message goes with \<open>success = False\<close>; \<open>success\<close> is true exactly when \<open>details\<close> is
  the sentence \<open>All checks passed.\<close>; and the status code and the response time are
  both present or both absent. A failing result of the validation does contain a
  failure message.
\<close>

theorem verdict_invariant_holds:
  "(validate_response self nm r e req = Inr v \<longrightarrow>
      verdict_invariant v \<and> (\<not> success v \<longrightarrow> contains_failure_message (details v)))
   \<and> verdict_invariant (exception_result nm exc)
   \<and> verdict_invariant (fst (run_get_test self nm path e req))
   \<and> verdict_invariant (fst (run_post_test self nm path payload e req))
   \<and> (\<forall>v \<in> set (results (snd (run_calls cs (init_suite cfg cl w)))). verdict_invariant v)"
proof -
  have "results (snd (run_calls cs (init_suite cfg cl w)))
      = fst (run_calls cs (init_suite cfg cl w))"
    using run_calls_results [of cs "init_suite cfg cl w"] by (simp add: init_suite_def)
  with run_calls_invariant [of cs "init_suite cfg cl w"]
  have run: "\<forall>v \<in> set (results (snd (run_calls cs (init_suite cfg cl w)))). verdict_invariant v"
    by simp
  have val: "validate_response self nm r e req = Inr v \<longrightarrow>
      verdict_invariant v \<and> (\<not> success v \<longrightarrow> contains_failure_message (details v))"
    using validate_response_invariant [of self nm r e req v] by simp
  from val run show ?thesis
    by (simp add: exception_result_invariant(1) run_get_test_invariant
        run_post_test_invariant)
qed

theorem verdict_invariant_holds_witness:
  "verdict_invariant
     \<lparr>name = ''t'', success = False, status_code = Some 404, response_time_ms = Some 950,
      details = ''Expected status 200, got 404. Response time 950.00 ms exceeded limit 800.00 ms.''\<rparr>
   \<and> contains_failure_message
       ''Expected status 200, got 404. Response time 950.00 ms exceeded limit 800.00 ms.''
   \<and> verdict_invariant
       \<lparr>name = ''first'', success = False, status_code = None, response_time_ms = None,
        details = ''Exception while executing test: Connection refused''\<rparr>"
proof -
  let ?v = "\<lparr>name = ''t'', success = False, status_code = Some 404,
      response_time_ms = Some 950,
      details = ''Expected status 200, got 404. Response time 950.00 ms exceeded limit 800.00 ms.''\<rparr>"
  let ?x = "\<lparr>name = ''first'', success = False, status_code = None, response_time_ms = None,
        details = ''Exception while executing test: Connection refused''\<rparr>"
  have v: "validate_response example_suite ''t'' example_response 200 None = Inr ?v"
    by (simp add: validate_response_def example_eval check_eval msg_eval fmt_eval)
  have r: "results (snd (run_calls [GetTest ''first'' ''/users/2'' 200 None]
      (init_suite default_config refusing_client ()))) = [?x]"
    by (simp add: run_get_test_def example_eval init_suite_def exception_result_def Let_def)
  note inv = verdict_invariant_holds [where self = example_suite and nm = "''t''"
      and r = example_response and e = 200 and req = None and v = ?v
      and exc = "APIClientError ''Connection refused''" and path = "''/users/2''"
      and payload = "JObj []" and cs = "[GetTest ''first'' ''/users/2'' 200 None]"
      and cfg = default_config and cl = refusing_client and w = "()"]
  from inv v have "verdict_invariant ?v"
    and "contains_failure_message (details ?v)" by simp_all
  moreover from inv have "\<forall>v \<in> set (results (snd (run_calls [GetTest ''first'' ''/users/2'' 200 None]
      (init_suite default_config refusing_client ())))). verdict_invariant v" by (elim conjE)
  then have "verdict_invariant ?x" unfolding r by simp
  ultimately show ?thesis by simp
qed

text \<open>\<open>run_all_tests\<close> is a run of four invocations.\<close>

lemma run_all_tests_run_calls:
  "run_all_tests suite =
     run_calls
       [GetTest ''GET single user (id=2)'' ''/users/2'' 200
          (Some [''data.id'', ''data.email'', ''data.first_name'', ''data.last_name'']),
        GetTest ''GET users list (page=2)'' ''/users?page=2'' 200 (Some [''page'', ''data'']),
        PostTest ''POST create user'' ''/users''
          (JObj [(''name'', JStr ''Harsh Bot''), (''job'', JStr ''automation-tester'')])
          201 (Some [''name'', ''job'', ''id'', ''createdAt'']),
        PostTest ''POST login without password (negative test)'' ''/login''
          (JObj [(''email'', JStr ''peter@klaven'')]) 400 (Some [''error''])]
       suite"
  by (simp add: run_all_tests_def split: prod.splits)

section \<open>The report\<close>

lemma digit_char_in: "digit_char n \<in> set ''0123456789''"
proof -
  have "n mod 10 < length ''0123456789''" by simp
  then show ?thesis unfolding digit_char_def by (rule nth_mem)
qed

lemma digit_char_not_newline: "newline \<noteq> digit_char n"
proof
  assume "newline = digit_char n"
  with digit_char_in [of n] have "newline \<in> set ''0123456789''" by (simp only:)
  then show False by (simp add: newline_def)
qed

lemma newline_str_nat: "newline \<notin> set (str_nat n)"
proof (induction n rule: str_nat.induct)
  case (1 n)
  show ?case
  proof (cases "n < 10")
    case True
    then show ?thesis
      by (simp add: str_nat_small digit_char_not_newline)
  next
    case False
    with "1.IH" show ?thesis
      by (simp add: str_nat_large digit_char_not_newline)
  qed
qed

lemma newline_not_sign: "newline \<noteq> CHR ''-''" "newline \<noteq> CHR ''.''"
  by (simp_all add: newline_def)

lemma newline_str_opt_int: "newline \<notin> set (str_opt_int v)"
proof (cases v)
  case None
  then show ?thesis by (simp add: str_opt_int_def newline_def)
next
  case (Some i)
  then show ?thesis
    by (simp add: str_opt_int_def str_int_def newline_str_nat newline_not_sign)
qed

lemma newline_format_2f: "newline \<notin> set (format_2f x)"
  by (simp add: format_2f_def Let_def newline_str_nat newline_not_sign
      digit_char_not_newline)

lemma newline_response_time_str: "newline \<notin> set (response_time_str t)"
proof (cases t)
  case None
  then show ?thesis by (simp add: response_time_str_def newline_def)
next
  case (Some x)
  have "newline \<notin> set ''N/A''" by (simp add: newline_def)
  with newline_format_2f [of x] Some show ?thesis
    by (cases "x = 0") (simp_all only: response_time_str_def option.case if_True if_False
        not_False_eq_True not_True_eq_False simp_thms)
qed

lemma newline_report_line:
  assumes "newline \<notin> set (name v)" and "newline \<notin> set (details v)"
  shows "newline \<notin> set (report_line v)"
proof -
  have "newline \<notin> set ''PASFIL |status=time''" by (simp add: newline_def)
  with assms newline_str_opt_int [of "status_code v"]
    newline_response_time_str [of "response_time_ms v"]
  show ?thesis by (simp add: report_line_def)
qed

lemma report_line_not_empty: "report_line v \<noteq> []"
  by (simp add: report_line_def)

lemma join_not_empty: "l \<noteq> [] \<Longrightarrow> join sep (l # ls) \<noteq> []"
  by (cases ls) simp_all

lemma text_lines_join:
  assumes "\<forall>l \<in> set ls. newline \<notin> set l \<and> l \<noteq> []"
  shows "text_lines (join [newline] ls) = ls"
proof (cases ls)
  case Nil
  then show ?thesis by (simp add: text_lines_def)
next
  case (Cons l ls')
  with assms have "join [newline] ls \<noteq> []"
    by (simp add: join_not_empty)
  moreover from assms Cons have "str_split newline (join [newline] ls) = ls"
    by (intro str_split_join) auto
  ultimately show ?thesis by (simp add: text_lines_def)
qed

lemma length_run_calls: "length (fst (run_calls cs self)) = length cs"
proof (induction cs arbitrary: self)
  case Nil
  show ?case by simp
next
  case (Cons c cs)
  obtain r s1 where c: "run_call c self = (r, s1)" by (cases "run_call c self")
  obtain rs s2 where cs: "run_calls cs s1 = (rs, s2)" by (cases "run_calls cs s1")
  from Cons.IH [of s1] cs have "length rs = length cs" by simp
  then show ?case by (simp add: c cs)
qed

text \<open>
  Claim C8 says that the report has exactly one line for each result. A request that
  fails with a description of two lines gives one result and a report of two lines.
\<close>

theorem report_lines_counterexample:
  "results two_line_failure_suite
     = [\<lparr>name = ''t'', success = False, status_code = None, response_time_ms = None,
         details = ''Exception while executing test: Connection refused''
                     @ [newline] @ ''retry later''\<rparr>]
   \<and> text_lines (the (write_report two_line_failure_suite ''report.txt'' Map.empty
                        ''report.txt''))
     = [''FAIL | t | status=None | time=N/A ms | Exception while executing test: Connection refused'',
        ''retry later'']
   \<and> length (text_lines (the (write_report two_line_failure_suite ''report.txt'' Map.empty
                                ''report.txt'')))
     \<noteq> length (results two_line_failure_suite)"
  by (simp add: two_line_failure_suite_def run_get_test_def exception_result_def
      failing_client_def init_suite_def write_report_def report_lines_def report_line_def
      response_time_str_def str_opt_int_def text_lines_def newline_def Let_def)

text \<open>
  Claim C8, amended. A run appends its results to those of the suite in the order of the
  invocations, one for each. \<open>write_report\<close> renders one entry for each result, in that
  order, and writes the entries joined by newlines. When no result has a newline in its
  name or its details, the lines of the written text are exactly these entries: as many
  lines as results, the \<open>n\<close>-th line rendering the \<open>n\<close>-th result.
\<close>

theorem report_order_preserving:
  "results (snd (run_calls cs self)) = results self @ fst (run_calls cs self)
   \<and> length (fst (run_calls cs self)) = length cs
   \<and> report_lines self = map report_line (results self)
   \<and> write_report self path fs path = Some (join [newline] (report_lines self))
   \<and> ((\<forall>v \<in> set (results self). newline \<notin> set (name v) \<and> newline \<notin> set (details v))
        \<longrightarrow> text_lines (join [newline] (report_lines self)) = map report_line (results self)
          \<and> length (text_lines (join [newline] (report_lines self))) = length (results self)
          \<and> (\<forall>n < length (results self).
                text_lines (join [newline] (report_lines self)) ! n
                  = report_line (results self ! n)))"
proof (intro conjI impI)
  show "results (snd (run_calls cs self)) = results self @ fst (run_calls cs self)"
    by (rule run_calls_results)
  show "length (fst (run_calls cs self)) = length cs"
    by (rule length_run_calls)
  show "report_lines self = map report_line (results self)"
    by (simp add: report_lines_def)
  show "write_report self path fs path = Some (join [newline] (report_lines self))"
    by (simp add: write_report_def)
next
  assume a: "\<forall>v \<in> set (results self). newline \<notin> set (name v) \<and> newline \<notin> set (details v)"
  then have "\<forall>l \<in> set (report_lines self). newline \<notin> set l \<and> l \<noteq> []"
    by (auto simp: report_lines_def newline_report_line report_line_not_empty)
  then have t: "text_lines (join [newline] (report_lines self)) = map report_line (results self)"
    using text_lines_join [of "report_lines self"] by (simp add: report_lines_def)
  then show "text_lines (join [newline] (report_lines self)) = map report_line (results self)" .
  from t show "length (text_lines (join [newline] (report_lines self))) = length (results self)"
    by simp
  from t show "\<forall>n < length (results self).
      text_lines (join [newline] (report_lines self)) ! n = report_line (results self ! n)"
    by simp
qed

theorem report_order_preserving_witness:
  "text_lines (join [newline] (report_lines
       (snd (run_calls [GetTest ''first'' ''/users/2'' 200 None,
                        PostTest ''second'' ''/users'' (JObj []) 201 None] example_suite))))
     = [''FAIL | first | status=None | time=N/A ms | Exception while executing test: Connection refused'',
        ''FAIL | second | status=None | time=N/A ms | Exception while executing test: Connection refused'']"
proof -
  let ?s = "snd (run_calls [GetTest ''first'' ''/users/2'' 200 None,
                        PostTest ''second'' ''/users'' (JObj []) 201 None] example_suite)"
  have r: "results ?s = [exception_result ''first'' (APIClientError ''Connection refused''),
      exception_result ''second'' (APIClientError ''Connection refused'')]"
    by (simp add: run_get_test_def run_post_test_def example_eval init_suite_def Let_def)
  have h: "\<forall>v \<in> set (results ?s). newline \<notin> set (name v) \<and> newline \<notin> set (details v)"
    unfolding r by (simp add: exception_result_def newline_def)
  from report_order_preserving [of "[]" ?s "''report.txt''" Map.empty] h
  have "text_lines (join [newline] (report_lines ?s)) = map report_line (results ?s)"
    by blast
  then show ?thesis
    unfolding r
    by (simp add: exception_result_def report_line_def response_time_str_def
        str_opt_int_def)
qed

text \<open>
  Claim C7 says that a latency that is present is rendered as a number, also when it is
  zero. A response that took no measurable time is validated to a result whose response
  time is present and zero. \<open>write_report\<close> and \<open>print_summary\<close> render it as \<open>N/A\<close>,
  where \<open>_log_result\<close> renders \<open>0.00\<close>.
\<close>

theorem zero_latency_rendered_as_absent:
  "fst (run_get_test (init_suite default_config (serving_client instant_response) ())
          ''t'' ''/users/2'' 200 None) = instant_verdict
   \<and> report_line instant_verdict
       = ''PASS | t | status=200 | time=N/A ms | All checks passed.''
   \<and> summary_line instant_verdict
       = ljust 5 ''PASS'' @ '' | '' @ ljust 40 ''t'' @ '' | status=200 | time=N/A ms''
   \<and> log_result instant_verdict
       = ''[PASS] t (status=200, time=0.00 ms) - All checks passed.''"
proof (intro conjI)
  show "report_line instant_verdict
       = ''PASS | t | status=200 | time=N/A ms | All checks passed.''"
    by (simp add: instant_verdict_def report_line_def response_time_str_def fmt_eval)
  show "summary_line instant_verdict
       = ljust 5 ''PASS'' @ '' | '' @ ljust 40 ''t'' @ '' | status=200 | time=N/A ms''"
    by (simp add: instant_verdict_def summary_line_def response_time_str_def fmt_eval)
  show "log_result instant_verdict
       = ''[PASS] t (status=200, time=0.00 ms) - All checks passed.''"
    by (simp add: instant_verdict_def log_result_def fmt_eval)
  show "fst (run_get_test (init_suite default_config (serving_client instant_response) ())
          ''t'' ''/users/2'' 200 None) = instant_verdict"
    by (simp add: run_get_test_def validate_response_def instant_response_def
        instant_verdict_def example_eval check_eval msg_eval Let_def)
qed

end
